theory Spec2Isabelle
  imports Complex_Main "HOL-Library.Word"
begin

unbundle bit_operations_syntax

section \<open>Packed colours (utils.go)\<close>

text \<open>The \<open>sdl.Color\<close> struct: four bytes.\<close>

record Color =
  R :: "8 word"
  G :: "8 word"
  B :: "8 word"
  A :: "8 word"

definition convert_rgb24_to_rgba :: "32 word \<Rightarrow> Color" where
  "convert_rgb24_to_rgba color =
     \<lparr> R = ucast ((drop_bit 16 color) AND 0xff),
       G = ucast ((drop_bit 8 color) AND 0xff),
       B = ucast (color AND 0xff),
       A = 255 \<rparr>"

definition convert_rgba_to_rgb24 :: "Color \<Rightarrow> 32 word" where
  "convert_rgba_to_rgb24 color =
     (let rgb24 = (ucast (R color) :: 32 word);
          rgb24 = (push_bit 8 rgb24) OR ucast (G color);
          rgb24 = (push_bit 8 rgb24) OR ucast (B color)
      in rgb24)"

section \<open>Rectangles as triangle lists (utils.go)\<close>

text \<open>\<open>sdl.Rect\<close> has four \<open>int32\<close> fields; \<open>+\<close> on them wraps around. An
  \<open>i32vec2\<close> is a pair of \<open>int32\<close>, the array \<open>[6]i32vec2\<close> a list.\<close>

record Rect =
  X :: "32 word"
  Y :: "32 word"
  W :: "32 word"
  H :: "32 word"

type_synonym i32vec2 = "32 word \<times> 32 word"

definition triangulate_rect :: "Rect \<Rightarrow> i32vec2 list" where
  "triangulate_rect rect =
     [ (X rect, Y rect),
       (X rect, Y rect + H rect),
       (X rect + W rect, Y rect + H rect),
       (X rect + W rect, Y rect + H rect),
       (X rect + W rect, Y rect),
       (X rect, Y rect) ]"

text \<open>What a non-indexed triangle-list draw (\<open>gl.DrawArrays(gl.TRIANGLES, 0, n)\<close>) does
  with a vertex sequence: every three consecutive vertices are one triangle, and a
  trailing group of fewer than three is dropped.\<close>

fun triangle_list :: "'a list \<Rightarrow> ('a \<times> 'a \<times> 'a) list" where
  "triangle_list (a # b # c # vs) = (a, b, c) # triangle_list vs"
| "triangle_list vs = []"

text \<open>Plane geometry over the integers, to say what a triangle covers: the edge function
  of the directed edge \<open>a \<rightarrow> b\<close> at \<open>p\<close> is the cross product of \<open>b - a\<close> and \<open>p - a\<close>;
  a point lies in the closed triangle when the three edge functions do not disagree in
  sign.\<close>

type_synonym point = "int \<times> int"

definition edge_fn :: "point \<Rightarrow> point \<Rightarrow> point \<Rightarrow> int" where
  "edge_fn a b p = (fst b - fst a) * (snd p - snd a) - (snd b - snd a) * (fst p - fst a)"

definition in_triangle :: "point \<times> point \<times> point \<Rightarrow> point \<Rightarrow> bool" where
  "in_triangle t p =
     (case t of (a, b, c) \<Rightarrow>
        (0 \<le> edge_fn a b p \<and> 0 \<le> edge_fn b c p \<and> 0 \<le> edge_fn c a p) \<or>
        (edge_fn a b p \<le> 0 \<and> edge_fn b c p \<le> 0 \<and> edge_fn c a p \<le> 0))"

definition point_of :: "i32vec2 \<Rightarrow> point" where
  "point_of v = (sint (fst v), sint (snd v))"

definition in_rect :: "Rect \<Rightarrow> point \<Rightarrow> bool" where
  "in_rect rect p =
     (sint (X rect) \<le> fst p \<and> fst p \<le> sint (X rect) + sint (W rect) \<and>
      sint (Y rect) \<le> snd p \<and> snd p \<le> sint (Y rect) + sint (H rect))"

text \<open>A rectangle whose far corner is computed without \<open>int32\<close> overflow and whose extent
  is positive.\<close>

definition rect_proper :: "Rect \<Rightarrow> bool" where
  "rect_proper rect =
     (0 < sint (W rect) \<and> 0 < sint (H rect) \<and>
      sint (X rect) + sint (W rect) < 2 ^ 31 \<and>
      sint (Y rect) + sint (H rect) < 2 ^ 31)"

section \<open>Vertex upload (renderer_gl.go)\<close>

text \<open>The OpenGL calls \<open>RGL_Render\<close> issues, as values. The package-level variable
  \<open>rgl_last_buffer_size\<close> (a Go \<open>int\<close>, zero at program start) is the state. The contents
  of a \<open>Vertex\<close> (ten \<open>float32\<close>) play no part, so the vertex type is a parameter. A byte
  count \<open>len(vertex_data) * VertexStructSize\<close> is the size of the slice's own storage and
  so fits a Go \<open>int\<close>; the vertex count handed to \<open>gl.DrawArrays\<close> is converted to
  \<open>int32\<close> and is a 32-bit word here.\<close>

datatype gl_call =
    BufferData nat
  | BufferSubData nat nat
  | DrawArrays "32 word" "32 word"

text \<open>Both upload calls take \<open>gl.Ptr(vertex_data)\<close> as an argument, and \<open>gl.Ptr\<close> takes the
  address of element 0 of the slice: on an empty slice it panics, before any OpenGL call
  is made.\<close>

datatype rgl_failure = PtrPanic

record rgl_globals =
  rgl_last_buffer_size :: int

definition VertexStructSize :: nat where
  "VertexStructSize = 10 * 4"

definition rgl_initial :: rgl_globals where
  "rgl_initial = \<lparr> rgl_last_buffer_size = 0 \<rparr>"

definition gl_Ptr :: "'v list \<Rightarrow> rgl_failure + unit" where
  "gl_Ptr vertex_data = (if vertex_data = [] then Inl PtrPanic else Inr ())"

definition RGL_Render ::
  "rgl_globals \<Rightarrow> 'v list \<Rightarrow> rgl_failure + (rgl_globals \<times> gl_call list)" where
  "RGL_Render g vertex_data =
     (if rgl_last_buffer_size g \<noteq> int (length vertex_data)
      then (case gl_Ptr vertex_data of
              Inl e \<Rightarrow> Inl e
            | Inr _ \<Rightarrow>
                Inr (g, [BufferData (length vertex_data * VertexStructSize),
                         DrawArrays 0 (word_of_nat (length vertex_data))]))
      else (case gl_Ptr vertex_data of
              Inl e \<Rightarrow> Inl e
            | Inr _ \<Rightarrow>
                Inr (g, [BufferSubData 0 (length vertex_data * VertexStructSize),
                         DrawArrays 0 (word_of_nat (length vertex_data))])))"

text \<open>One call of \<open>RGL_Render\<close> per frame, the globals threaded through; a panic ends the
  program.\<close>

fun render_frames :: "rgl_globals \<Rightarrow> 'v list list \<Rightarrow> rgl_failure + gl_call list list" where
  "render_frames g [] = Inr []"
| "render_frames g (f # fs) =
     (case RGL_Render g f of
        Inl e \<Rightarrow> Inl e
      | Inr (g', calls) \<Rightarrow>
          (case render_frames g' fs of
             Inl e \<Rightarrow> Inl e
           | Inr rest \<Rightarrow> Inr (calls # rest)))"

definition reallocates :: "gl_call list \<Rightarrow> bool" where
  "reallocates calls = (\<exists>n \<in> set calls. (case n of BufferData _ \<Rightarrow> True | _ \<Rightarrow> False))"

section \<open>User options (nvimproc.go, Editor)\<close>

text \<open>A \<open>float32\<close> is only stored and compared here, never computed with: its value is a
  finite real, an infinity or NaN, and the comparison is IEEE's (false whenever NaN is
  involved).\<close>

datatype f32 = Finite real | PosInf | NegInf | NaN

fun f32_le :: "f32 \<Rightarrow> f32 \<Rightarrow> bool" where
  "f32_le NaN _ = False"
| "f32_le _ NaN = False"
| "f32_le NegInf _ = True"
| "f32_le _ PosInf = True"
| "f32_le (Finite a) (Finite b) = (a \<le> b)"
| "f32_le _ _ = False"

record Editor =
  cursor_animLifetime :: f32
  framebufferTransparency :: f32
  targetTPS :: int

definition DEFAULT_TRANSPARENCY :: f32 where
  "DEFAULT_TRANSPARENCY = Finite 1"

definition DEFAULT_TARGET_TPS :: int where
  "DEFAULT_TARGET_TPS = 60"

definition initDefaults :: "Editor \<Rightarrow> Editor" where
  "initDefaults editor =
     editor\<lparr> framebufferTransparency := DEFAULT_TRANSPARENCY,
             targetTPS := DEFAULT_TARGET_TPS \<rparr>"

text \<open>\<open>proc.handle.Var(name, &v)\<close> either fails (\<open>None\<close>: the variable is absent or does
  not decode into the Go type) or stores the value in \<open>v\<close>. The three variables
  \<open>requestOptions\<close> asks for:\<close>

record nvim_vars =
  neoray_cursor_animation_time :: "f32 option"
  neoray_framebuffer_transparency :: "f32 option"
  neoray_target_ticks_per_second :: "int option"

definition requestOptions :: "nvim_vars \<Rightarrow> Editor \<Rightarrow> Editor" where
  "requestOptions vars editor =
     (let e1 = (case neoray_cursor_animation_time vars of
                  Some animlifetime \<Rightarrow> editor\<lparr> cursor_animLifetime := animlifetime \<rparr>
                | None \<Rightarrow> editor);
          e2 = (case neoray_framebuffer_transparency vars of
                  Some transparency \<Rightarrow>
                    if f32_le (Finite 0) transparency \<and> f32_le transparency (Finite 1)
                    then e1\<lparr> framebufferTransparency := transparency \<rparr> else e1
                | None \<Rightarrow> e1);
          e3 = (case neoray_target_ticks_per_second vars of
                  Some targetticks \<Rightarrow>
                    if targetticks > 0 then e2\<lparr> targetTPS := targetticks \<rparr> else e2
                | None \<Rightarrow> e2)
      in e3)"

definition options_valid :: "Editor \<Rightarrow> bool" where
  "options_valid editor =
     (f32_le (Finite 0) (framebufferTransparency editor) \<and>
      f32_le (framebufferTransparency editor) (Finite 1) \<and>
      0 < targetTPS editor)"

section \<open>Highlight table (spec \<section>3, \<section>4.1)\<close>









section \<open>Grid (spec \<section>3, \<section>4.2)\<close>

text \<open>Modelled from the spec: the cell grid (\<open>Cell\<close>, \<open>Grid\<close>); the repository's grid
  module and its handlers of the \<open>grid-line\<close> and \<open>grid-scroll\<close> events are sources not at
  hand. A cell holds a character (the empty string for an empty cell), a highlight id and
  its redraw flag; the grid holds \<open>rows * cols\<close> cells in row-major order.\<close>

record Cell =
  character :: string
  highlightId :: int
  needsRedraw :: bool

record Grid =
  rows :: nat
  cols :: nat
  cells :: "Cell list"
  defaultHighlight :: int

text \<open>Modelled from the spec: the grid's invariant \<open>rows * cols = len(cells)\<close>.\<close>

definition grid_inv :: "Grid \<Rightarrow> bool" where
  "grid_inv g = (rows g * cols g = length (cells g))"

text \<open>Modelled from the spec: \<open>Grid.cellAt(row, col)\<close>; a position outside the grid has
  no cell.\<close>

definition cellAt :: "Grid \<Rightarrow> nat \<Rightarrow> nat \<Rightarrow> Cell option" where
  "cellAt g r c =
     (if r < rows g \<and> c < cols g \<and> r * cols g + c < length (cells g)
      then Some (cells g ! (r * cols g + c)) else None)"

text \<open>Modelled from the spec: the damage flag of a row. A row is dirty when one of its
  cells needs a redraw.\<close>

definition rowDirty :: "Grid \<Rightarrow> nat \<Rightarrow> bool" where
  "rowDirty g r =
     (\<exists>c \<in> set [0..<cols g]. case cellAt g r c of Some x \<Rightarrow> needsRedraw x | None \<Rightarrow> False)"


subsection \<open>grid-line\<close>

text \<open>Modelled from the spec: one entry of a \<open>grid-line\<close> event is
  \<open>(text, highlightId?, repeatCount?)\<close>; an omitted highlight id or repeat count takes the
  previous entry's value. Before the first entry the highlight id is the grid's default
  and the repeat count is 1. The event's numbers come from the wire: they are integers
  and may be negative in a malformed event.\<close>

type_synonym LineEntry = "string \<times> int option \<times> int option"

type_synonym GridLine = "int \<times> int \<times> LineEntry list"

text \<open>Modelled from the spec: a store into the cell array. At an index outside the array
  it is the failure \<open>None\<close> (in Go: an index-out-of-range panic).\<close>

definition writeCell :: "Cell list \<Rightarrow> nat \<Rightarrow> Cell \<Rightarrow> Cell list option" where
  "writeCell cs i x = (if i < length cs then Some (cs[i := x]) else None)"

text \<open>Modelled from the spec: the run of one entry. Write \<open>n\<close> copies of a cell from
  column \<open>col\<close> of the row starting at index \<open>base\<close>, stopping at the column count.
  Returns the cells and the next column.\<close>

fun writeRun :: "Cell list \<Rightarrow> nat \<Rightarrow> nat \<Rightarrow> nat \<Rightarrow> Cell \<Rightarrow> nat \<Rightarrow> (Cell list \<times> nat) option" where
  "writeRun cs ncols base col x 0 = Some (cs, col)"
| "writeRun cs ncols base col x (Suc n) =
     (if col < ncols then
        (case writeCell cs (base + col) x of
           None \<Rightarrow> None
         | Some cs' \<Rightarrow> writeRun cs' ncols base (Suc col) x n)
      else Some (cs, col))"

text \<open>Modelled from the spec: the entries of one event, in order, each run starting where
  the previous one ended.\<close>

fun writeEntries ::
  "Cell list \<Rightarrow> nat \<Rightarrow> nat \<Rightarrow> nat \<Rightarrow> int \<Rightarrow> int \<Rightarrow> LineEntry list \<Rightarrow> Cell list option" where
  "writeEntries cs ncols base col hl rep [] = Some cs"
| "writeEntries cs ncols base col hl rep ((txt, h, r) # es) =
     (let hl' = (case h of Some v \<Rightarrow> v | None \<Rightarrow> hl);
          rep' = (case r of Some v \<Rightarrow> v | None \<Rightarrow> rep)
      in case writeRun cs ncols base col
                \<lparr> character = txt, highlightId = hl', needsRedraw = True \<rparr> (nat rep') of
           None \<Rightarrow> None
         | Some (cs', col') \<Rightarrow> writeEntries cs' ncols base col' hl' rep' es)"

text \<open>Modelled from the spec: the handler of \<open>grid-line(row, startCol, cells[])\<close>. An
  event whose row is outside the grid or whose start column is negative is malformed and
  skipped.\<close>

definition gridLine :: "Grid \<Rightarrow> GridLine \<Rightarrow> Grid option" where
  "gridLine g ev =
     (case ev of (row, startCol, entries) \<Rightarrow>
        if 0 \<le> row \<and> row < int (rows g) \<and> 0 \<le> startCol then
          (case writeEntries (cells g) (cols g) (nat row * cols g) (nat startCol)
                  (defaultHighlight g) 1 entries of
             None \<Rightarrow> None
           | Some cs \<Rightarrow> Some (g\<lparr> cells := cs \<rparr>))
        else Some g)"

text \<open>Modelled from the spec: a sequence of \<open>grid-line\<close> events, applied in arrival
  order.\<close>

fun gridLines :: "Grid \<Rightarrow> GridLine list \<Rightarrow> Grid option" where
  "gridLines g [] = Some g"
| "gridLines g (ev # evs) =
     (case gridLine g ev of None \<Rightarrow> None | Some g' \<Rightarrow> gridLines g' evs)"

text \<open>To state what the events ask for: the writes of an event, one per cell and in
  order, are the run-length decoding of its entries (\<open>expand\<close>) laid out from the start
  column (\<open>layout\<close>).\<close>

fun expand :: "LineEntry list \<Rightarrow> int \<Rightarrow> int \<Rightarrow> (string \<times> int) list" where
  "expand [] hl rep = []"
| "expand ((txt, h, r) # es) hl rep =
     (let hl' = (case h of Some v \<Rightarrow> v | None \<Rightarrow> hl);
          rep' = (case r of Some v \<Rightarrow> v | None \<Rightarrow> rep)
      in replicate (nat rep') (txt, hl') @ expand es hl' rep')"

type_synonym CellWrite = "nat \<times> nat \<times> string \<times> int"

fun layout :: "nat \<Rightarrow> nat \<Rightarrow> (string \<times> int) list \<Rightarrow> CellWrite list" where
  "layout r c [] = []"
| "layout r c ((txt, hl) # xs) = (r, c, txt, hl) # layout r (Suc c) xs"

definition writesOf :: "int \<Rightarrow> GridLine \<Rightarrow> CellWrite list" where
  "writesOf dflt ev =
     (case ev of (row, startCol, entries) \<Rightarrow>
        layout (nat row) (nat startCol) (expand entries dflt 1))"

text \<open>A sequence of writes carried out one after the other on the cell array.\<close>

definition applyWrites :: "nat \<Rightarrow> CellWrite list \<Rightarrow> Cell list \<Rightarrow> Cell list" where
  "applyWrites ncols ws cs =
     fold (\<lambda>(r, c, tx, hl) cs.
             cs[r * ncols + c := \<lparr> character = tx, highlightId = hl, needsRedraw = True \<rparr>])
          ws cs"

text \<open>The last write to a position in a sequence of writes, if there is one.\<close>

definition lastWrite :: "CellWrite list \<Rightarrow> nat \<Rightarrow> nat \<Rightarrow> (string \<times> int) option" where
  "lastWrite ws r c =
     (case filter (\<lambda>(r', c', _). r' = r \<and> c' = c) (rev ws) of
        [] \<Rightarrow> None
      | (_, _, x) # _ \<Rightarrow> Some x)"

text \<open>An event within the grid's bounds: its row exists and its run ends at or before the
  last column.\<close>

definition lineInBounds :: "Grid \<Rightarrow> GridLine \<Rightarrow> bool" where
  "lineInBounds g ev =
     (case ev of (row, startCol, entries) \<Rightarrow>
        0 \<le> row \<and> row < int (rows g) \<and> 0 \<le> startCol \<and>
        nat startCol + length (expand entries (defaultHighlight g) 1) \<le> cols g)"

subsection \<open>grid-scroll\<close>

text \<open>Modelled from the spec: \<open>grid-scroll(top, bottom, left, right, rowDelta)\<close> shifts
  the cells of the region \<open>[top,bottom) \<times> [left,right)\<close> vertically by \<open>rowDelta\<close>
  (positive: the text moves up, the source row lies below the destination row), clears
  the vacated rows of the region to the default highlight and marks the whole region
  dirty. The region is clamped to the grid. The rows are processed in place, top to
  bottom when the text moves up and bottom to top otherwise, so that no row is
  overwritten before it has been copied.\<close>








section \<open>Properties: packed colours\<close>

lemma ff_mask: "(0xff::32 word) = mask 8"
  by (simp add: mask_eq_exp_minus_1)

lemma bit8_bound: "bit (w::8 word) n \<Longrightarrow> n < 8"
  by (drule bit_imp_le_length) simp

lemma rgb24_of_rgba_of_rgb24:
  "convert_rgba_to_rgb24 (convert_rgb24_to_rgba c) = take_bit 24 c"
  unfolding convert_rgba_to_rgb24_def convert_rgb24_to_rgba_def Let_def ff_mask
  apply (rule bit_word_eqI)
  apply (simp add: bit_simps)
  subgoal for n by (cases "n < 16") auto
  done

lemma rgba_of_rgb24_of_rgba:
  "A col = 255 \<Longrightarrow> convert_rgb24_to_rgba (convert_rgba_to_rgb24 col) = col"
  unfolding convert_rgba_to_rgb24_def convert_rgb24_to_rgba_def Let_def ff_mask
  apply (cases col)
  apply simp
  apply (intro conjI; rule bit_word_eqI)
  apply (auto simp add: bit_simps dest: bit8_bound)
  done

lemma unat_take_bit_24: "unat (take_bit 24 (c::32 word)) = unat c mod 2 ^ 24"
  by (simp add: take_bit_eq_mod unat_mod)

text \<open>C9. Converting a packed 24-bit colour to \<open>sdl.Color\<close> and back gives the value
  modulo \<open>2^24\<close>: the high byte is dropped. Converting an \<open>sdl.Color\<close> whose alpha is 255
  to the packed form and back gives the same colour.\<close>

theorem color_conversions_inverse:
  "convert_rgba_to_rgb24 (convert_rgb24_to_rgba c) = c AND 0xffffff
   \<and> unat (convert_rgba_to_rgb24 (convert_rgb24_to_rgba c)) = unat c mod 2 ^ 24
   \<and> (A col = 255 \<longrightarrow> convert_rgb24_to_rgba (convert_rgba_to_rgb24 col) = col)"
proof -
  have m: "take_bit 24 c = c AND 0xffffff"
    by (simp add: take_bit_eq_mask mask_eq_exp_minus_1)
  have "convert_rgba_to_rgb24 (convert_rgb24_to_rgba c) = c AND 0xffffff"
    using rgb24_of_rgba_of_rgb24 [of c] m by simp
  moreover have "unat (convert_rgba_to_rgb24 (convert_rgb24_to_rgba c)) = unat c mod 2 ^ 24"
    by (simp only: rgb24_of_rgba_of_rgb24 unat_take_bit_24)
  moreover have "A col = 255 \<longrightarrow> convert_rgb24_to_rgba (convert_rgba_to_rgb24 col) = col"
    using rgba_of_rgb24_of_rgba by blast
  ultimately show ?thesis by blast
qed

theorem color_conversions_inverse_witness:
  "A \<lparr> R = 18, G = 52, B = 86, A = 255 \<rparr> = 255
   \<and> convert_rgb24_to_rgba (convert_rgba_to_rgb24 \<lparr> R = 18, G = 52, B = 86, A = 255 \<rparr>)
       = \<lparr> R = 18, G = 52, B = 86, A = 255 \<rparr>
   \<and> convert_rgba_to_rgb24 (convert_rgb24_to_rgba 0xff123456) = 0x123456"
  using color_conversions_inverse [of "0xff123456" "\<lparr> R = 18, G = 52, B = 86, A = 255 \<rparr>"]
  by simp

section \<open>Properties: rectangles as triangle lists\<close>

lemma sint_add_no_wrap:
  fixes a b :: "32 word"
  assumes "0 < sint b" "sint a + sint b < 2 ^ 31"
  shows "sint (a + b) = sint a + sint b"
proof -
  have "- (2 ^ 31) \<le> sint a" using sint_ge [of a] by simp
  with assms have "- (2 ^ (LENGTH(32) - 1)) \<le> sint a + sint b" "sint a + sint b < 2 ^ (LENGTH(32) - 1)"
    by simp_all
  then show ?thesis
    by (simp add: sint_word_ariths signed_take_bit_int_eq_self)
qed

lemma tri_cover:
  fixes x y w h px py :: int
  assumes "0 < w" "0 < h"
  shows "(x \<le> px \<and> px \<le> x + w \<and> y \<le> py \<and> py \<le> y + h) \<longleftrightarrow>
     (in_triangle ((x, y), (x, y + h), (x + w, y + h)) (px, py) \<or>
      in_triangle ((x + w, y + h), (x + w, y), (x, y)) (px, py))"
proof -
  define u where "u = px - x"
  define v where "v = py - y"
  have e: "px = x + u" "py = y + v" by (simp_all add: u_def v_def)
  have k1: "h * u \<le> 0 \<longleftrightarrow> u \<le> 0" using assms by (simp add: mult_le_0_iff)
  have k2: "0 \<le> h * u \<longleftrightarrow> 0 \<le> u" using assms by (simp add: zero_le_mult_iff)
  have k3: "w * (v - h) \<le> 0 \<longleftrightarrow> v \<le> h" using assms by (simp add: mult_le_0_iff)
  have k4: "0 \<le> w * (v - h) \<longleftrightarrow> h \<le> v" using assms by (simp add: zero_le_mult_iff)
  have k5: "h * (u - w) \<le> 0 \<longleftrightarrow> u \<le> w" using assms by (simp add: mult_le_0_iff)
  have k6: "0 \<le> h * (u - w) \<longleftrightarrow> w \<le> u" using assms by (simp add: zero_le_mult_iff)
  have k7: "w * v \<le> 0 \<longleftrightarrow> v \<le> 0" using assms by (simp add: mult_le_0_iff)
  have k8: "0 \<le> w * v \<longleftrightarrow> 0 \<le> v" using assms by (simp add: zero_le_mult_iff)
  have t1: "in_triangle ((x, y), (x, y + h), (x + w, y + h)) (px, py) \<longleftrightarrow>
     (0 \<le> - (h * u) \<and> 0 \<le> w * (v - h) \<and> 0 \<le> h * u - w * v) \<or>
     (- (h * u) \<le> 0 \<and> w * (v - h) \<le> 0 \<and> h * u - w * v \<le> 0)"
    by (simp add: in_triangle_def edge_fn_def e algebra_simps)
  have t2: "in_triangle ((x + w, y + h), (x + w, y), (x, y)) (px, py) \<longleftrightarrow>
     (0 \<le> h * (u - w) \<and> 0 \<le> - (w * v) \<and> 0 \<le> w * v - h * u) \<or>
     (h * (u - w) \<le> 0 \<and> - (w * v) \<le> 0 \<and> w * v - h * u \<le> 0)"
    by (simp add: in_triangle_def edge_fn_def e algebra_simps)
  have b1: "u \<le> w" if "h * u \<le> w * v" "v \<le> h"
  proof -
    have "w * v \<le> w * h" using that assms by simp
    then have "h * u \<le> h * w" using that by (simp add: mult.commute)
    then show ?thesis using assms by simp
  qed
  have b2: "0 \<le> v" if "h * u \<le> w * v" "0 \<le> u"
  proof -
    have "0 \<le> h * u" using that assms by simp
    then have "0 \<le> w * v" using that by simp
    then show ?thesis using k8 by simp
  qed
  have b3: "v \<le> h" if "w * v \<le> h * u" "u \<le> w"
  proof -
    have "h * u \<le> h * w" using that assms by simp
    then have "w * v \<le> w * h" using that by (simp add: mult.commute)
    then show ?thesis using assms by simp
  qed
  have b4: "0 \<le> u" if "w * v \<le> h * u" "0 \<le> v"
  proof -
    have "0 \<le> w * v" using that assms by simp
    then have "0 \<le> h * u" using that by simp
    then show ?thesis using k2 by simp
  qed
  have n1: "\<not> (u \<le> 0 \<and> h \<le> v \<and> w * v \<le> h * u)"
  proof
    assume a: "u \<le> 0 \<and> h \<le> v \<and> w * v \<le> h * u"
    then have "h * u \<le> 0" using k1 by simp
    with a have "w * v \<le> 0" by simp
    then have "v \<le> 0" using k7 by simp
    with a assms show False by simp
  qed
  have n2: "\<not> (w \<le> u \<and> v \<le> 0 \<and> h * u \<le> w * v)"
  proof
    assume a: "w \<le> u \<and> v \<le> 0 \<and> h * u \<le> w * v"
    then have "w * v \<le> 0" using k7 by simp
    with a have "h * u \<le> 0" by simp
    then have "u \<le> 0" using k1 by simp
    with a assms show False by simp
  qed
  have t1': "in_triangle ((x, y), (x, y + h), (x + w, y + h)) (px, py) \<longleftrightarrow>
     (0 \<le> u \<and> v \<le> h \<and> h * u \<le> w * v)"
    unfolding t1 using n1 k1 k2 k3 k4 by auto
  have t2': "in_triangle ((x + w, y + h), (x + w, y), (x, y)) (px, py) \<longleftrightarrow>
     (u \<le> w \<and> 0 \<le> v \<and> w * v \<le> h * u)"
    unfolding t2 using n2 k5 k6 k7 k8 by auto
  have r: "(x \<le> px \<and> px \<le> x + w \<and> y \<le> py \<and> py \<le> y + h) \<longleftrightarrow>
     (0 \<le> u \<and> u \<le> w \<and> 0 \<le> v \<and> v \<le> h)"
    by (auto simp: u_def v_def)
  show ?thesis
    unfolding t1' t2' r
    using b1 b2 b3 b4 by (meson linear)
qed

text \<open>C6. \<open>triangulate_rect\<close> returns exactly six vertices, in the order
  \<open>(X,Y), (X,Y+H), (X+W,Y+H), (X+W,Y+H), (X+W,Y), (X,Y)\<close>; a triangle-list draw reads
  them as two triangles; and for a rectangle of positive extent whose far corner does not
  overflow, a point of the plane lies in the rectangle exactly when it lies in one of the
  two triangles.\<close>

theorem triangulate_rect_quad:
  "triangulate_rect rect =
     [ (X rect, Y rect), (X rect, Y rect + H rect), (X rect + W rect, Y rect + H rect),
       (X rect + W rect, Y rect + H rect), (X rect + W rect, Y rect), (X rect, Y rect) ]
   \<and> length (triangulate_rect rect) = 6
   \<and> length (triangle_list (triangulate_rect rect)) = 2
   \<and> (rect_proper rect \<longrightarrow>
        (\<forall>p. in_rect rect p \<longleftrightarrow>
           (\<exists>t \<in> set (triangle_list (map point_of (triangulate_rect rect))). in_triangle t p)))"
proof -
  have cov: "in_rect rect p \<longleftrightarrow>
           (\<exists>t \<in> set (triangle_list (map point_of (triangulate_rect rect))). in_triangle t p)"
    if pr: "rect_proper rect" for p
  proof -
    obtain px py where p: "p = (px, py)" by (cases p)
    have w: "0 < sint (W rect)" and h: "0 < sint (H rect)"
      and xw: "sint (X rect + W rect) = sint (X rect) + sint (W rect)"
      and yh: "sint (Y rect + H rect) = sint (Y rect) + sint (H rect)"
      using pr by (simp_all add: rect_proper_def sint_add_no_wrap)
    show ?thesis
      using tri_cover [OF w h, of "sint (X rect)" px "sint (Y rect)" py]
      by (simp add: triangulate_rect_def point_of_def in_rect_def p xw yh)
  qed
  show ?thesis
    using cov by (simp add: triangulate_rect_def)
qed

theorem triangulate_rect_quad_witness:
  "rect_proper \<lparr> X = 2, Y = 3, W = 10, H = 20 \<rparr> \<and>
   in_rect \<lparr> X = 2, Y = 3, W = 10, H = 20 \<rparr> (5, 7) \<and>
   (\<exists>t \<in> set (triangle_list (map point_of (triangulate_rect \<lparr> X = 2, Y = 3, W = 10, H = 20 \<rparr>))).
       in_triangle t (5, 7))"
proof -
  have pr: "rect_proper \<lparr> X = 2, Y = 3, W = 10, H = 20 \<rparr>"
    by (simp add: rect_proper_def)
  have ir: "in_rect \<lparr> X = 2, Y = 3, W = 10, H = 20 \<rparr> (5, 7)"
    by (simp add: in_rect_def)
  show ?thesis
    using pr ir triangulate_rect_quad [of "\<lparr> X = 2, Y = 3, W = 10, H = 20 \<rparr>"] by blast
qed


section \<open>Properties: vertex upload\<close>

lemma RGL_Render_empty: "RGL_Render g [] = Inl PtrPanic"
  by (simp add: RGL_Render_def gl_Ptr_def)

lemma RGL_Render_branch:
  assumes "vs \<noteq> []"
  shows "\<exists>calls. RGL_Render g vs = Inr (g, calls) \<and>
     (reallocates calls \<longleftrightarrow> rgl_last_buffer_size g \<noteq> int (length vs))"
  using assms by (simp add: RGL_Render_def gl_Ptr_def reallocates_def)

lemma render_frames_from_zero:
  assumes "rgl_last_buffer_size g = 0" "\<forall>f \<in> set fs. f \<noteq> []"
  shows "render_frames g fs =
     Inr (map (\<lambda>f. [BufferData (length f * VertexStructSize),
                     DrawArrays 0 (word_of_nat (length f))]) fs)"
  using assms(2)
proof (induction fs)
  case Nil
  then show ?case by simp
next
  case (Cons f fs)
  have "f \<noteq> []" using Cons.prems by simp
  then have "RGL_Render g f =
      Inr (g, [BufferData (length f * VertexStructSize), DrawArrays 0 (word_of_nat (length f))])"
    using assms(1) by (simp add: RGL_Render_def gl_Ptr_def)
  then show ?case using Cons by simp
qed

text \<open>C1. \<open>RGL_Render\<close> compares the vertex count with \<open>rgl_last_buffer_size\<close> but never
  stores the count it uploaded, so the variable keeps its initial value 0. From program
  start, a second frame of six vertices after a first frame of six vertices is uploaded
  with \<open>BufferData\<close> again, although its size is that of the frame before.\<close>

theorem RGL_Render_same_size_frame_reallocates:
  "render_frames rgl_initial [[1, 2, 3, 4, 5, 6 :: nat], [7, 8, 9, 10, 11, 12]] =
     Inr [[BufferData 240, DrawArrays 0 6], [BufferData 240, DrawArrays 0 6]]"
  by (simp add: RGL_Render_def gl_Ptr_def rgl_initial_def VertexStructSize_def)

section \<open>Properties: user options\<close>

text \<open>C10. \<open>requestOptions\<close> stores the transparency only when it lies in \<open>[0,1]\<close> and the
  tick rate only when it is positive, and keeps the previous value otherwise. Starting
  from \<open>initDefaults\<close> (1 and 60), and from any editor whose two options are in range,
  the editor afterwards has \<open>0 \<le> framebufferTransparency \<le> 1\<close> and \<open>targetTPS > 0\<close>.\<close>

theorem requestOptions_valid:
  "options_valid (requestOptions vars (initDefaults editor))
   \<and> (options_valid editor \<longrightarrow> options_valid (requestOptions vars editor))
   \<and> framebufferTransparency (requestOptions vars editor) =
       (case neoray_framebuffer_transparency vars of
          Some t \<Rightarrow> if f32_le (Finite 0) t \<and> f32_le t (Finite 1) then t
                    else framebufferTransparency editor
        | None \<Rightarrow> framebufferTransparency editor)
   \<and> targetTPS (requestOptions vars editor) =
       (case neoray_target_ticks_per_second vars of
          Some n \<Rightarrow> if 0 < n then n else targetTPS editor
        | None \<Rightarrow> targetTPS editor)
   \<and> framebufferTransparency (initDefaults editor) = Finite 1
   \<and> targetTPS (initDefaults editor) = 60"
  by (simp add: requestOptions_def options_valid_def initDefaults_def Let_def
        DEFAULT_TRANSPARENCY_def DEFAULT_TARGET_TPS_def split: option.split)

theorem requestOptions_valid_witness:
  "options_valid \<lparr> cursor_animLifetime = Finite 0, framebufferTransparency = Finite (1/2), targetTPS = 30 \<rparr>
   \<and> options_valid (requestOptions
        \<lparr> neoray_cursor_animation_time = None,
          neoray_framebuffer_transparency = Some (Finite 2),
          neoray_target_ticks_per_second = Some (- 5) \<rparr>
        \<lparr> cursor_animLifetime = Finite 0, framebufferTransparency = Finite (1/2), targetTPS = 30 \<rparr>)
   \<and> framebufferTransparency (requestOptions
        \<lparr> neoray_cursor_animation_time = None,
          neoray_framebuffer_transparency = Some (Finite 2),
          neoray_target_ticks_per_second = Some (- 5) \<rparr>
        \<lparr> cursor_animLifetime = Finite 0, framebufferTransparency = Finite (1/2), targetTPS = 30 \<rparr>)
       = Finite (1/2)"
proof -
  have v: "options_valid \<lparr> cursor_animLifetime = Finite 0, framebufferTransparency = Finite (1/2), targetTPS = 30 \<rparr>"
    by (simp add: options_valid_def)
  show ?thesis
    using v requestOptions_valid [of
        "\<lparr> neoray_cursor_animation_time = None,
          neoray_framebuffer_transparency = Some (Finite 2),
          neoray_target_ticks_per_second = Some (- 5) \<rparr>"
        "\<lparr> cursor_animLifetime = Finite 0, framebufferTransparency = Finite (1/2), targetTPS = 30 \<rparr>"]
    by simp
qed

section \<open>Properties: highlight table\<close>


section \<open>Properties: grid-line\<close>

lemma writeRun_frame:
  "base + ncols \<le> length cs \<Longrightarrow>
   \<exists>cs' col'. writeRun cs ncols base col x n = Some (cs', col') \<and> length cs' = length cs \<and>
     col \<le> col' \<and> (\<forall>i. i < base + col \<or> base + ncols \<le> i \<longrightarrow> cs' ! i = cs ! i)"
proof (induction n arbitrary: cs col)
  case 0
  then show ?case by simp
next
  case (Suc n)
  show ?case
  proof (cases "col < ncols")
    case False
    then show ?thesis by simp
  next
    case True
    let ?cs1 = "cs[base + col := x]"
    have w: "writeCell cs (base + col) x = Some ?cs1"
      using True Suc.prems by (simp add: writeCell_def)
    have "base + ncols \<le> length ?cs1" using Suc.prems by simp
    from Suc.IH [OF this, of "Suc col"]
    obtain cs' col' where r: "writeRun ?cs1 ncols base (Suc col) x n = Some (cs', col')"
      "length cs' = length ?cs1" "Suc col \<le> col'"
      "\<forall>i. i < base + Suc col \<or> base + ncols \<le> i \<longrightarrow> cs' ! i = ?cs1 ! i"
      by blast
    have "\<forall>i. i < base + col \<or> base + ncols \<le> i \<longrightarrow> cs' ! i = cs ! i"
      using r(4) True by auto
    then show ?thesis using True w r by simp
  qed
qed

lemma writeEntries_frame:
  "base + ncols \<le> length cs \<Longrightarrow>
   \<exists>cs'. writeEntries cs ncols base col hl rep es = Some cs' \<and> length cs' = length cs \<and>
     (\<forall>i. i < base + col \<or> base + ncols \<le> i \<longrightarrow> cs' ! i = cs ! i)"
proof (induction es arbitrary: cs col hl rep)
  case Nil
  then show ?case by simp
next
  case (Cons e es)
  obtain tx h r where e: "e = (tx, h, r)" by (cases e)
  define hl' where "hl' = (case h of Some v \<Rightarrow> v | None \<Rightarrow> hl)"
  define rep' where "rep' = (case r of Some v \<Rightarrow> v | None \<Rightarrow> rep)"
  define x where "x = \<lparr> character = tx, highlightId = hl', needsRedraw = True \<rparr>"
  from writeRun_frame [OF Cons.prems, of col x "nat rep'"]
  obtain cs1 col1 where r1: "writeRun cs ncols base col x (nat rep') = Some (cs1, col1)"
    "length cs1 = length cs" "col \<le> col1"
    "\<forall>i. i < base + col \<or> base + ncols \<le> i \<longrightarrow> cs1 ! i = cs ! i"
    by blast
  have "base + ncols \<le> length cs1" using Cons.prems r1(2) by simp
  from Cons.IH [OF this, of col1 hl' rep']
  obtain cs2 where r2: "writeEntries cs1 ncols base col1 hl' rep' es = Some cs2"
    "length cs2 = length cs1"
    "\<forall>i. i < base + col1 \<or> base + ncols \<le> i \<longrightarrow> cs2 ! i = cs1 ! i"
    by blast
  have "\<forall>i. i < base + col \<or> base + ncols \<le> i \<longrightarrow> cs2 ! i = cs ! i"
    using r1(3,4) r2(3) by auto
  moreover have "writeEntries cs ncols base col hl rep (e # es) = Some cs2"
    using r1(1) r2(1) by (simp add: e hl'_def rep'_def x_def)
  ultimately show ?case using r1(2) r2(2) by simp
qed

text \<open>C4. On a grid whose cell array has \<open>rows * cols\<close> cells, any \<open>grid-line\<close> event,
  well-formed or not, is applied without an out-of-range store; rows, columns and the
  length of the cell array stay as they are; and no cell outside the columns
  \<open>startCol .. cols - 1\<close> of the event's row is changed: a run longer than the row stops
  at the column count and does not run on into the next row.\<close>

theorem gridLine_stays_in_bounds:
  assumes "grid_inv g"
  shows "\<exists>g'. gridLine g (row, startCol, entries) = Some g' \<and> grid_inv g' \<and>
           rows g' = rows g \<and> cols g' = cols g \<and> length (cells g') = rows g * cols g \<and>
           (\<forall>i. i < nat row * cols g + nat startCol \<or> nat row * cols g + cols g \<le> i
                 \<longrightarrow> cells g' ! i = cells g ! i)"
proof (cases "0 \<le> row \<and> row < int (rows g) \<and> 0 \<le> startCol")
  case False
  then have "gridLine g (row, startCol, entries) = Some g"
    by (auto simp: gridLine_def)
  then show ?thesis using assms by (simp add: grid_inv_def)
next
  case True
  then have "Suc (nat row) \<le> rows g" by linarith
  then have "Suc (nat row) * cols g \<le> rows g * cols g" by (rule mult_le_mono1)
  then have b: "nat row * cols g + cols g \<le> length (cells g)"
    using assms by (simp add: grid_inv_def)
  from writeEntries_frame [OF b, of "nat startCol" "defaultHighlight g" 1 entries]
  obtain cs' where r: "writeEntries (cells g) (cols g) (nat row * cols g) (nat startCol)
       (defaultHighlight g) 1 entries = Some cs'" "length cs' = length (cells g)"
    "\<forall>i. i < nat row * cols g + nat startCol \<or> nat row * cols g + cols g \<le> i
       \<longrightarrow> cs' ! i = cells g ! i"
    by blast
  have "gridLine g (row, startCol, entries) = Some (g\<lparr> cells := cs' \<rparr>)"
    using True r(1) by (simp add: gridLine_def)
  then show ?thesis using assms r(2,3) by (simp add: grid_inv_def)
qed

theorem gridLine_stays_in_bounds_witness:
  "grid_inv \<lparr> rows = 2, cols = 3,
       cells = replicate 6 \<lparr> character = [], highlightId = 0, needsRedraw = False \<rparr>,
       defaultHighlight = 0 \<rparr>
   \<and> (\<exists>g'. gridLine \<lparr> rows = 2, cols = 3,
             cells = replicate 6 \<lparr> character = [], highlightId = 0, needsRedraw = False \<rparr>,
             defaultHighlight = 0 \<rparr> (0, 1, [(''a'', Some 1, Some 5)]) = Some g'
        \<and> grid_inv g' \<and> length (cells g') = 6
        \<and> cells g' ! 3 = \<lparr> character = [], highlightId = 0, needsRedraw = False \<rparr>)"
proof -
  let ?g = "\<lparr> rows = 2, cols = 3,
       cells = replicate 6 \<lparr> character = [], highlightId = 0, needsRedraw = False \<rparr>,
       defaultHighlight = 0 \<rparr>"
  have i: "grid_inv ?g" by (simp add: grid_inv_def)
  from gridLine_stays_in_bounds [OF i, of 0 1 "[(''a'', Some 1, Some 5)]"]
  obtain g' where g': "gridLine ?g (0, 1, [(''a'', Some 1, Some 5)]) = Some g'"
    "grid_inv g'" "length (cells g') = 6" "cells g' ! 3 = cells ?g ! 3"
    by auto
  then show ?thesis using i by auto
qed

lemma applyWrites_Nil: "applyWrites ncols [] cs = cs"
  by (simp add: applyWrites_def)

lemma applyWrites_Cons:
  "applyWrites ncols ((r, c, tx, hl) # ws) cs =
     applyWrites ncols ws
       (cs[r * ncols + c := \<lparr> character = tx, highlightId = hl, needsRedraw = True \<rparr>])"
  by (simp add: applyWrites_def)

lemma applyWrites_append:
  "applyWrites ncols (ws @ vs) cs = applyWrites ncols vs (applyWrites ncols ws cs)"
  by (simp add: applyWrites_def)

lemma length_applyWrites: "length (applyWrites ncols ws cs) = length cs"
  by (induction ws arbitrary: cs) (auto simp: applyWrites_Nil applyWrites_Cons)

lemma layout_append:
  "layout r c (xs @ ys) = layout r c xs @ layout r (c + length xs) ys"
  by (induction xs arbitrary: c) auto

lemma layout_bounds:
  "(r', c', v) \<in> set (layout r c xs) \<Longrightarrow> r' = r \<and> c \<le> c' \<and> c' < c + length xs"
  by (induction xs arbitrary: c) fastforce+

lemma writeRun_exact:
  "r * ncols + ncols \<le> length cs \<Longrightarrow> col + n \<le> ncols \<Longrightarrow>
   writeRun cs ncols (r * ncols) col \<lparr> character = tx, highlightId = hl, needsRedraw = True \<rparr> n
     = Some (applyWrites ncols (layout r col (replicate n (tx, hl))) cs, col + n)"
proof (induction n arbitrary: cs col)
  case 0
  then show ?case by (simp add: applyWrites_Nil)
next
  case (Suc n)
  then show ?case
    by (simp add: writeCell_def applyWrites_Cons)
qed

lemma writeEntries_exact:
  "r * ncols + ncols \<le> length cs \<Longrightarrow> col + length (expand es hl rep) \<le> ncols \<Longrightarrow>
   writeEntries cs ncols (r * ncols) col hl rep es
     = Some (applyWrites ncols (layout r col (expand es hl rep)) cs)"
proof (induction es arbitrary: cs col hl rep)
  case Nil
  then show ?case by (simp add: applyWrites_Nil)
next
  case (Cons e es)
  obtain tx h rp where e: "e = (tx, h, rp)" by (cases e)
  define hl' where "hl' = (case h of Some v \<Rightarrow> v | None \<Rightarrow> hl)"
  define rep' where "rep' = (case rp of Some v \<Rightarrow> v | None \<Rightarrow> rep)"
  define n where "n = nat rep'"
  have ex: "expand (e # es) hl rep = replicate n (tx, hl') @ expand es hl' rep'"
    by (simp add: e hl'_def rep'_def n_def Let_def)
  have len: "col + n + length (expand es hl' rep') \<le> ncols"
    using Cons.prems(2) by (simp add: ex)
  then have n: "col + n \<le> ncols" by simp
  let ?cs1 = "applyWrites ncols (layout r col (replicate n (tx, hl'))) cs"
  have run: "writeRun cs ncols (r * ncols) col
      \<lparr> character = tx, highlightId = hl', needsRedraw = True \<rparr> n = Some (?cs1, col + n)"
    by (rule writeRun_exact [OF Cons.prems(1) n])
  have "r * ncols + ncols \<le> length ?cs1"
    using Cons.prems(1) by (simp add: length_applyWrites)
  from Cons.IH [OF this len]
  have rest: "writeEntries ?cs1 ncols (r * ncols) (col + n) hl' rep' es
      = Some (applyWrites ncols (layout r (col + n) (expand es hl' rep')) ?cs1)" .
  have "writeEntries cs ncols (r * ncols) col hl rep (e # es)
      = Some (applyWrites ncols (layout r (col + n) (expand es hl' rep')) ?cs1)"
    using run rest by (simp add: e hl'_def rep'_def n_def Let_def)
  then show ?case
    by (simp add: ex layout_append applyWrites_append)
qed

lemma gridLine_exact:
  assumes "grid_inv g" "lineInBounds g ev"
  shows "gridLine g ev =
     Some (g\<lparr> cells := applyWrites (cols g) (writesOf (defaultHighlight g) ev) (cells g) \<rparr>)"
proof -
  obtain row startCol entries where ev: "ev = (row, startCol, entries)" by (cases ev)
  have b: "0 \<le> row" "row < int (rows g)" "0 \<le> startCol"
    "nat startCol + length (expand entries (defaultHighlight g) 1) \<le> cols g"
    using assms(2) by (simp_all add: lineInBounds_def ev)
  have "Suc (nat row) \<le> rows g" using b by linarith
  then have "Suc (nat row) * cols g \<le> rows g * cols g" by (rule mult_le_mono1)
  then have l: "nat row * cols g + cols g \<le> length (cells g)"
    using assms(1) by (simp add: grid_inv_def)
  show ?thesis
    using b writeEntries_exact [OF l b(4)]
    by (simp add: gridLine_def ev writesOf_def)
qed

lemma gridLines_exact:
  assumes "grid_inv g" "\<forall>ev \<in> set evs. lineInBounds g ev"
  shows "gridLines g evs =
     Some (g\<lparr> cells := applyWrites (cols g)
                 (concat (map (writesOf (defaultHighlight g)) evs)) (cells g) \<rparr>)"
  using assms
proof (induction evs arbitrary: g)
  case Nil
  then show ?case by (simp add: applyWrites_Nil)
next
  case (Cons ev evs)
  let ?g1 = "g\<lparr> cells := applyWrites (cols g) (writesOf (defaultHighlight g) ev) (cells g) \<rparr>"
  have s1: "gridLine g ev = Some ?g1"
    using Cons.prems by (simp add: gridLine_exact)
  have i1: "grid_inv ?g1"
    using Cons.prems(1) by (simp add: grid_inv_def length_applyWrites)
  have b1: "\<forall>ev \<in> set evs. lineInBounds ?g1 ev"
    using Cons.prems(2) by (simp add: lineInBounds_def)
  show ?case
    using s1 Cons.IH [OF i1 b1] by (simp add: applyWrites_append)
qed

lemma cell_index_inj:
  fixes n :: nat
  assumes "c < n" "c' < n" "r * n + c = r' * n + c'"
  shows "r = r' \<and> c = c'"
proof -
  have n: "0 < n" using assms(1) by simp
  have "(c + r * n) div n = r" "(c' + r' * n) div n = r'"
    using assms n by (simp_all add: div_mult_self1)
  moreover have "(c + r * n) mod n = c" "(c' + r' * n) mod n = c'"
    using assms by simp_all
  moreover have "c + r * n = c' + r' * n" using assms(3) by (simp add: add.commute)
  ultimately show ?thesis by metis
qed

lemma lastWrite_Nil: "lastWrite [] r c = None"
  by (simp add: lastWrite_def)

lemma lastWrite_snoc:
  "lastWrite (ws @ [(r', c', v)]) r c =
     (if r' = r \<and> c' = c then Some v else lastWrite ws r c)"
  by (simp add: lastWrite_def)

lemma lastWrite_member:
  "(r, c, v) \<in> set ws \<Longrightarrow> \<exists>v'. lastWrite ws r c = Some v'"
proof (induction ws rule: rev_induct)
  case Nil
  then show ?case by simp
next
  case (snoc w ws)
  obtain r' c' v' where w: "w = (r', c', v')" by (cases w)
  show ?case using snoc by (auto simp: w lastWrite_snoc)
qed

lemma applyWrites_nth:
  assumes "\<forall>(r', c', v) \<in> set ws. c' < ncols" "c < ncols" "r * ncols + c < length cs"
  shows "applyWrites ncols ws cs ! (r * ncols + c) =
     (case lastWrite ws r c of
        None \<Rightarrow> cs ! (r * ncols + c)
      | Some (tx, hl) \<Rightarrow> \<lparr> character = tx, highlightId = hl, needsRedraw = True \<rparr>)"
  using assms(1)
proof (induction ws rule: rev_induct)
  case Nil
  then show ?case by (simp add: applyWrites_Nil lastWrite_Nil)
next
  case (snoc w ws)
  obtain r' c' tx hl where w: "w = (r', c', tx, hl)" by (cases w)
  have c': "c' < ncols" using snoc.prems by (simp add: w)
  have ih: "applyWrites ncols ws cs ! (r * ncols + c) =
     (case lastWrite ws r c of
        None \<Rightarrow> cs ! (r * ncols + c)
      | Some (tx, hl) \<Rightarrow> \<lparr> character = tx, highlightId = hl, needsRedraw = True \<rparr>)"
    using snoc by simp
  have step: "applyWrites ncols (ws @ [w]) cs =
      (applyWrites ncols ws cs)[r' * ncols + c' :=
         \<lparr> character = tx, highlightId = hl, needsRedraw = True \<rparr>]"
    by (simp add: applyWrites_append w applyWrites_Cons applyWrites_Nil)
  show ?case
  proof (cases "r' = r \<and> c' = c")
    case True
    then show ?thesis
      unfolding step using assms(3) by (simp add: w lastWrite_snoc length_applyWrites)
  next
    case False
    then have "r' * ncols + c' \<noteq> r * ncols + c"
      using cell_index_inj [OF c' assms(2)] by blast
    then show ?thesis
      unfolding step using False ih by (auto simp: w lastWrite_snoc)
  qed
qed

lemma writesOf_bounds:
  assumes "lineInBounds g ev" "(r, c, v) \<in> set (writesOf (defaultHighlight g) ev)"
  shows "r < rows g \<and> c < cols g"
proof -
  obtain row startCol entries where ev: "ev = (row, startCol, entries)" by (cases ev)
  have b: "0 \<le> row" "row < int (rows g)" "0 \<le> startCol"
    "nat startCol + length (expand entries (defaultHighlight g) 1) \<le> cols g"
    using assms(1) by (simp_all add: lineInBounds_def ev)
  have "(r, c, v) \<in> set (layout (nat row) (nat startCol) (expand entries (defaultHighlight g) 1))"
    using assms(2) by (simp add: writesOf_def ev)
  from layout_bounds [OF this] show ?thesis using b by linarith
qed

text \<open>C3. After a sequence of \<open>grid-line\<close> events within the grid's bounds, every cell
  holds the last write the sequence made to its position (the run-length decoding of the
  entries, an omitted highlight id taken from the previous entry), or its old value if
  there was none, and every row that was written to is dirty.\<close>

theorem gridLines_last_write_wins:
  assumes "grid_inv g" "\<forall>ev \<in> set evs. lineInBounds g ev"
  shows "\<exists>g'. gridLines g evs = Some g' \<and> rows g' = rows g \<and> cols g' = cols g \<and>
     (\<forall>r c. r < rows g \<and> c < cols g \<longrightarrow>
        cellAt g' r c =
          (case lastWrite (concat (map (writesOf (defaultHighlight g)) evs)) r c of
             Some (tx, hl) \<Rightarrow> Some \<lparr> character = tx, highlightId = hl, needsRedraw = True \<rparr>
           | None \<Rightarrow> cellAt g r c)) \<and>
     (\<forall>(r, c, v) \<in> set (concat (map (writesOf (defaultHighlight g)) evs)). rowDirty g' r)"
proof -
  let ?ws = "concat (map (writesOf (defaultHighlight g)) evs)"
  let ?g' = "g\<lparr> cells := applyWrites (cols g) ?ws (cells g) \<rparr>"
  have run: "gridLines g evs = Some ?g'"
    by (rule gridLines_exact [OF assms])
  have wb: "r < rows g \<and> c < cols g" if "(r, c, v) \<in> set ?ws" for r c v
  proof -
    from that have "\<exists>ev \<in> set evs. (r, c, v) \<in> set (writesOf (defaultHighlight g) ev)"
      by simp
    then obtain ev where "ev \<in> set evs" "(r, c, v) \<in> set (writesOf (defaultHighlight g) ev)"
      by blast
    then show ?thesis using assms(2) writesOf_bounds by blast
  qed
  then have wc: "\<forall>(r', c', v) \<in> set ?ws. c' < cols g" by blast
  have idx: "r * cols g + c < length (cells g)" if "r < rows g" "c < cols g" for r c
  proof -
    have "Suc r * cols g \<le> rows g * cols g"
      using that(1) by (intro mult_le_mono1) simp
    then show ?thesis using that(2) assms(1) by (simp add: grid_inv_def)
  qed
  have cell: "cellAt ?g' r c =
          (case lastWrite ?ws r c of
             Some (tx, hl) \<Rightarrow> Some \<lparr> character = tx, highlightId = hl, needsRedraw = True \<rparr>
           | None \<Rightarrow> cellAt g r c)" if "r < rows g" "c < cols g" for r c
    using that idx [OF that] applyWrites_nth [OF wc that(2) idx [OF that]]
    by (simp add: cellAt_def length_applyWrites split: option.split)
  have dirty: "rowDirty ?g' r" if m: "(r, c, v) \<in> set ?ws" for r c v
  proof -
    have b: "r < rows g" "c < cols g" using wb [OF m] by simp_all
    obtain v' where "lastWrite ?ws r c = Some v'"
      using lastWrite_member [OF m] by blast
    then have "\<exists>x. cellAt ?g' r c = Some x \<and> needsRedraw x"
      using cell [OF b] by (cases v') simp
    then show ?thesis
      using b by (auto simp: rowDirty_def intro!: bexI [of _ c])
  qed
  have c': "\<forall>r c. r < rows g \<and> c < cols g \<longrightarrow>
        cellAt ?g' r c =
          (case lastWrite ?ws r c of
             Some (tx, hl) \<Rightarrow> Some \<lparr> character = tx, highlightId = hl, needsRedraw = True \<rparr>
           | None \<Rightarrow> cellAt g r c)"
    using cell by blast
  have d': "\<forall>(r, c, v) \<in> set ?ws. rowDirty ?g' r"
  proof (clarify)
    fix r c a b
    assume "(r, c, a, b) \<in> set ?ws"
    then show "rowDirty ?g' r" by (rule dirty)
  qed
  show ?thesis
    by (intro exI [of _ ?g'] conjI run c' d') simp_all
qed

theorem gridLines_last_write_wins_witness:
  "grid_inv \<lparr> rows = 2, cols = 3,
       cells = replicate 6 \<lparr> character = [], highlightId = 0, needsRedraw = False \<rparr>,
       defaultHighlight = 0 \<rparr>
   \<and> lineInBounds \<lparr> rows = 2, cols = 3,
       cells = replicate 6 \<lparr> character = [], highlightId = 0, needsRedraw = False \<rparr>,
       defaultHighlight = 0 \<rparr> (0, 0, [(''H'', Some 1, Some 1), (''i'', None, None)])
   \<and> lineInBounds \<lparr> rows = 2, cols = 3,
       cells = replicate 6 \<lparr> character = [], highlightId = 0, needsRedraw = False \<rparr>,
       defaultHighlight = 0 \<rparr> (0, 1, [(''x'', Some 2, Some 2)])
   \<and> (\<exists>g'. gridLines \<lparr> rows = 2, cols = 3,
             cells = replicate 6 \<lparr> character = [], highlightId = 0, needsRedraw = False \<rparr>,
             defaultHighlight = 0 \<rparr>
           [(0, 0, [(''H'', Some 1, Some 1), (''i'', None, None)]),
            (0, 1, [(''x'', Some 2, Some 2)])] = Some g'
        \<and> cellAt g' 0 0 = Some \<lparr> character = ''H'', highlightId = 1, needsRedraw = True \<rparr>
        \<and> cellAt g' 0 1 = Some \<lparr> character = ''x'', highlightId = 2, needsRedraw = True \<rparr>
        \<and> cellAt g' 1 1 = Some \<lparr> character = [], highlightId = 0, needsRedraw = False \<rparr>
        \<and> rowDirty g' 0)"
proof -
  let ?g = "\<lparr> rows = 2, cols = 3,
       cells = replicate 6 \<lparr> character = [], highlightId = 0, needsRedraw = False \<rparr>,
       defaultHighlight = 0 \<rparr>"
  let ?e1 = "(0, 0, [(''H'', Some 1, Some 1), (''i'', None, None)]) :: GridLine"
  let ?e2 = "(0, 1, [(''x'', Some 2, Some 2)]) :: GridLine"
  have i: "grid_inv ?g" by (simp add: grid_inv_def)
  have b1: "lineInBounds ?g ?e1" by (simp add: lineInBounds_def)
  have b2: "lineInBounds ?g ?e2" by (simp add: lineInBounds_def)
  have b: "\<forall>ev \<in> set [?e1, ?e2]. lineInBounds ?g ev" using b1 b2 by simp
  have ws: "concat (map (writesOf (defaultHighlight ?g)) [?e1, ?e2]) =
      [(0, 0, ''H'', 1), (0, 1, ''i'', 1), (0, 1, ''x'', 2), (0, 2, ''x'', 2)]"
    by (simp add: writesOf_def numeral_2_eq_2)
  from gridLines_last_write_wins [OF i b]
  obtain g' where g': "gridLines ?g [?e1, ?e2] = Some g'"
    and c: "\<And>r c. r < 2 \<Longrightarrow> c < 3 \<Longrightarrow> cellAt g' r c =
          (case lastWrite [(0, 0, ''H'', 1), (0, 1, ''i'', 1), (0, 1, ''x'', 2), (0, 2, ''x'', 2)] r c of
             Some (tx, hl) \<Rightarrow> Some \<lparr> character = tx, highlightId = hl, needsRedraw = True \<rparr>
           | None \<Rightarrow> cellAt ?g r c)"
    and d: "\<forall>(r, c, v) \<in> set [(0, 0, ''H'', 1), (0, 1, ''i'', 1), (0, 1, ''x'', 2), (0, 2, ''x'', 2)].
              rowDirty g' r"
    unfolding ws by auto
  have "cellAt g' 0 0 = Some \<lparr> character = ''H'', highlightId = 1, needsRedraw = True \<rparr>"
    using c [of 0 0] by (simp add: lastWrite_def)
  moreover have "cellAt g' 0 1 = Some \<lparr> character = ''x'', highlightId = 2, needsRedraw = True \<rparr>"
    using c [of 0 1] by (simp add: lastWrite_def)
  moreover have "cellAt g' 1 1 = Some \<lparr> character = [], highlightId = 0, needsRedraw = False \<rparr>"
    using c [of 1 1] by (simp add: lastWrite_def cellAt_def)
  moreover have "rowDirty g' 0" using d by simp
  ultimately show ?thesis using i b1 b2 g' by blast
qed

section \<open>Properties: grid-scroll\<close>
















end
